theory Spec2Isabelle
  imports Main "HOL-Library.Multiset"
begin

section \<open>The /find/page handler of main.py\<close>

text \<open>
  The handler \<open>find_page\<close> of \<open>main.py\<close> validates a JSON body, asks the generation
  service whether the user is searching, expands the query, searches once per expanded
  query, deduplicates the results through their JSON serialisation, and then runs a
  select-fetch-retry loop over the deduplicated list.

  The classes \<open>GPT4\<close> and \<open>GoogleSearch\<close>, the function \<open>is_valid_query\<close> and the
  function \<open>fetch_page_content\<close> are imported by \<open>main.py\<close>; the library functions
  \<open>validators.url\<close>, \<open>urlparse\<close>, \<open>json.dumps\<close> and \<open>json.loads\<close> are called by
  it. All of them are parameters of the model, collected in the record \<open>env\<close>. A call
  that has an effect takes the state of the outside world \<open>'w\<close> and returns the new one,
  so that two calls with the same arguments may answer differently; it returns
  \<open>Inl e\<close> when it raises an exception whose text is \<open>e\<close>, and \<open>Inr v\<close> when it returns
  \<open>v\<close>. Python's \<open>None\<close> is \<open>None\<close>, so a link that may be \<open>None\<close> is a
  \<open>string option\<close>, and the three answers \<open>True\<close>, \<open>False\<close>, \<open>None\<close> of the intent
  classifier are a \<open>bool option\<close>.
\<close>

subsection \<open>Data\<close>

type_synonym exn = string

text \<open>The two shapes of JSON body the handler answers with, next to the status code.\<close>

datatype body =
    ErrorBody string
  | LinkMessage "string option" string

type_synonym response = "body \<times> nat"

text \<open>
  One event per call of an outside service, with the arguments of the call and what it
  answered. The handler's trace is the list of these events in the order of the calls.
\<close>

datatype 'c event =
    IsUserSearching string string "exn + bool option"
  | GenUnfocusedResponse string string "exn + string"
  | GetSearchQueries string "string option" "exn + string list"
  | GetTopResult string "exn + 'c option"
  | GetRelevantResult string "string option" "'c list" "exn + string option"
  | FetchPageContent "string option" "exn + string option"
  | GenCustomerResponse string "string option" "string option" "string option" "exn + string"

record ('c, 'w) env =
  validators_url :: "string \<Rightarrow> bool"
  is_valid_query :: "string \<Rightarrow> bool"
  urlparse :: "string \<Rightarrow> (string \<times> string) option"
  json_dumps :: "'c \<Rightarrow> string"
  json_loads :: "string \<Rightarrow> 'c"
  set_iter :: "string list \<Rightarrow> string list"
  is_user_searching :: "string \<Rightarrow> string \<Rightarrow> 'w \<Rightarrow> (exn + bool option) \<times> 'w"
  gen_unfocused_response :: "string \<Rightarrow> string \<Rightarrow> 'w \<Rightarrow> (exn + string) \<times> 'w"
  get_search_queries :: "string \<Rightarrow> string option \<Rightarrow> 'w \<Rightarrow> (exn + string list) \<times> 'w"
  get_top_result :: "string \<Rightarrow> 'w \<Rightarrow> (exn + 'c option) \<times> 'w"
  get_relevant_result ::
    "string \<Rightarrow> string option \<Rightarrow> 'c list \<Rightarrow> 'w \<Rightarrow> (exn + string option) \<times> 'w"
  fetch_page_content :: "string option \<Rightarrow> 'w \<Rightarrow> (exn + string option) \<times> 'w"
  gen_customer_response ::
    "string \<Rightarrow> string option \<Rightarrow> string option \<Rightarrow> string option \<Rightarrow> 'w \<Rightarrow> (exn + string) \<times> 'w"

text \<open>
  The JSON body of a request is a map from field names to strings, in which a field that
  is missing or \<open>null\<close> has no value. A candidate is a value of the type \<open>'c\<close>;
  candidates are compared by value, as \<open>list.remove\<close> compares them.
  \<open>validators_url u\<close> is the truth value of \<open>validators.url(u)\<close>. \<open>urlparse u\<close> is
  the pair (scheme, netloc) of \<open>urlparse(u)\<close>, or \<open>None\<close> when it raises.
  The Python set \<open>results\<close> is kept as the list of its elements in the order they
  were first added; \<open>set_iter\<close> is the order in which Python iterates over such a set,
  which the language leaves open.
\<close>

type_synonym ('c, 'w) state = "'w \<times> 'c event list"

subsection \<open>Calls, sequencing and the exception handler\<close>

definition call ::
  "((exn + 'a) \<Rightarrow> 'c event) \<Rightarrow> ('w \<Rightarrow> (exn + 'a) \<times> 'w) \<Rightarrow> ('c, 'w) state
    \<Rightarrow> (exn + 'a) \<times> ('c, 'w) state" where
  "call ev f s = (case f (fst s) of (r, w') \<Rightarrow> (r, (w', snd s @ [ev r])))"

definition ret :: "'a \<Rightarrow> 's \<Rightarrow> (exn + 'a) \<times> 's" where
  "ret x s = (Inr x, s)"

definition bindE ::
  "('s \<Rightarrow> (exn + 'a) \<times> 's) \<Rightarrow> ('a \<Rightarrow> 's \<Rightarrow> (exn + 'b) \<times> 's) \<Rightarrow> 's \<Rightarrow> (exn + 'b) \<times> 's" where
  "bindE m k s = (case m s of (Inl e, s') \<Rightarrow> (Inl e, s') | (Inr x, s') \<Rightarrow> k x s')"

subsection \<open>web_utils.py\<close>

definition is_valid_url :: "('c, 'w) env \<Rightarrow> string \<Rightarrow> bool" where
  "is_valid_url env url = (if validators_url env url then True else False)"

definition get_base_url :: "('c, 'w) env \<Rightarrow> string \<Rightarrow> string option" where
  "get_base_url env link =
     (case urlparse env link of
        None \<Rightarrow> None
      | Some (scheme, netloc) \<Rightarrow> Some (scheme @ ''://'' @ netloc))"

subsection \<open>The search loop and the deduplication (lines 62 to 73)\<close>

definition set_add :: "string \<Rightarrow> string list \<Rightarrow> string list" where
  "set_add x results = (if x \<in> set results then results else results @ [x])"

text \<open>
  The three statements that follow a search result that is not \<open>None\<close>: serialise it,
  add the serialisation to the set, rebuild the list from the set.
\<close>

definition add_result ::
  "('c, 'w) env \<Rightarrow> 'c \<Rightarrow> string list \<times> 'c list \<Rightarrow> string list \<times> 'c list" where
  "add_result env current_result acc =
     (let result_str = json_dumps env current_result;
          results = set_add result_str (fst acc)
      in (results, map (json_loads env) (set_iter env results)))"

fun search_loop ::
  "('c, 'w) env \<Rightarrow> string list \<Rightarrow> string list \<times> 'c list \<Rightarrow> ('c, 'w) state
    \<Rightarrow> (exn + string list \<times> 'c list) \<times> ('c, 'w) state" where
  "search_loop env [] acc s = (Inr acc, s)"
| "search_loop env (search # rest) acc s =
     (case call (GetTopResult search) (get_top_result env search) s of
        (Inl e, s') \<Rightarrow> (Inl e, s')
      | (Inr None, s') \<Rightarrow> search_loop env rest acc s'
      | (Inr (Some current_result), s') \<Rightarrow>
          search_loop env rest (add_result env current_result acc) s')"

text \<open>
  The deduplication alone: what the loop above leaves in \<open>unique_results_list\<close> when
  the searches return the candidates \<open>cs\<close>, in this order.
\<close>

definition dedup :: "('c, 'w) env \<Rightarrow> 'c list \<Rightarrow> 'c list" where
  "dedup env cs = snd (foldl (\<lambda>acc c. add_result env c acc) ([], []) cs)"

subsection \<open>The verifier loop (lines 78 to 87)\<close>

text \<open>
  A Python \<open>for\<close> over a list keeps an index: each round it stops if the index has
  reached the current length of the list, and otherwise reads the element at the index
  and advances it. The body removes an element from the list it iterates over, so the
  index and the list are both part of the loop state. \<open>vars\<close> holds
  \<open>relevant_link\<close> and \<open>page_content\<close>, which are unbound until the body has run.
\<close>

function verify_loop ::
  "('c, 'w) env \<Rightarrow> string \<Rightarrow> string option \<Rightarrow> nat \<Rightarrow> 'c list
    \<Rightarrow> (string option \<times> string option) option \<Rightarrow> ('c, 'w) state
    \<Rightarrow> (exn + 'c list \<times> (string option \<times> string option) option) \<times> ('c, 'w) state" where
  "verify_loop env query base_url i unique_results_list vars s =
     (if i < length unique_results_list then
        (let result = unique_results_list ! i in
         case call (GetRelevantResult query base_url unique_results_list)
                (get_relevant_result env query base_url unique_results_list) s of
           (Inl e, s1) \<Rightarrow> (Inl e, s1)
         | (Inr relevant_link, s1) \<Rightarrow>
             (case call (FetchPageContent relevant_link)
                     (fetch_page_content env relevant_link) s1 of
                (Inl e, s2) \<Rightarrow> (Inl e, s2)
              | (Inr page_content, s2) \<Rightarrow>
                  if page_content \<noteq> None
                  then (Inr (unique_results_list, Some (relevant_link, page_content)), s2)
                  else verify_loop env query base_url (i + 1)
                         (remove1 result unique_results_list)
                         (Some (relevant_link, page_content)) s2))
      else (Inr (unique_results_list, vars), s))"
  by pat_completeness auto
termination
  by (relation "measure (\<lambda>(env, query, base_url, i, l, vars, s). length l - i)")
     (auto simp: length_remove1)

declare verify_loop.simps [simp del]

subsection \<open>The handler\<close>

definition find_page_body ::
  "('c, 'w) env \<Rightarrow> (string \<rightharpoonup> string) \<Rightarrow> ('c, 'w) state \<Rightarrow> (exn + response) \<times> ('c, 'w) state"
  where
  "find_page_body env data =
     (case data ''url'' of
        None \<Rightarrow> ret (ErrorBody ''Missing url parameter.'', 401)
      | Some url \<Rightarrow>
     (case data ''query'' of
        None \<Rightarrow> ret (ErrorBody ''Missing query parameter.'', 402)
      | Some query \<Rightarrow>
     if \<not> is_valid_url env url then ret (ErrorBody ''Invalid URL.'', 421)
     else if \<not> is_valid_query env query then ret (ErrorBody ''Invalid query.'', 422)
     else
       bindE (call (IsUserSearching query url) (is_user_searching env query url))
         (\<lambda>is_user_searching.
       if is_user_searching \<noteq> Some True then
         bindE (call (GenUnfocusedResponse query url) (gen_unfocused_response env query url))
           (\<lambda>unfocused_response. ret (LinkMessage None unfocused_response, 200))
       else if is_user_searching = None then ret (ErrorBody ''An error occurred.'', 500)
       else
         (let base_url = get_base_url env url in
          bindE (call (GetSearchQueries query base_url) (get_search_queries env query base_url))
            (\<lambda>search_queries.
          bindE (search_loop env search_queries ([], []))
            (\<lambda>(results, unique_results_list).
          if length unique_results_list \<le> 0
          then ret (ErrorBody ''No relevant links found.'', 423)
          else
            bindE (verify_loop env query base_url 0 unique_results_list None)
              (\<lambda>(unique_results_list, vars).
            case vars of
              None \<Rightarrow> (\<lambda>s. (Inl ''UnboundLocalError'', s))
            | Some (relevant_link, page_content) \<Rightarrow>
                if relevant_link = Some ''None'' \<or> relevant_link = None
                then ret (ErrorBody ''No relevant links found.'', 424)
                else
                  bindE (call (GenCustomerResponse query base_url relevant_link page_content)
                           (gen_customer_response env query base_url relevant_link
                              page_content))
                    (\<lambda>customer_response.
                       ret (LinkMessage relevant_link customer_response, 200)))))))))"

text \<open>
  The \<open>try\<close> around the whole body: any exception becomes the response 500 that carries
  its text. The handler starts with an empty trace and returns the response, the new
  state of the world and the trace.
\<close>

definition find_page ::
  "('c, 'w) env \<Rightarrow> (string \<rightharpoonup> string) \<Rightarrow> 'w \<Rightarrow> response \<times> 'w \<times> 'c event list" where
  "find_page env data w =
     (case find_page_body env data (w, []) of
        (Inl e, s) \<Rightarrow> ((ErrorBody e, 500), s)
      | (Inr r, s) \<Rightarrow> (r, s))"

subsection \<open>Reading a trace\<close>

fun is_search_event :: "'c event \<Rightarrow> bool" where
  "is_search_event (GetTopResult search r) = True"
| "is_search_event ev = False"

fun is_select_event :: "'c event \<Rightarrow> bool" where
  "is_select_event (GetRelevantResult query base_url l r) = True"
| "is_select_event ev = False"

fun is_fetch_event :: "'c event \<Rightarrow> bool" where
  "is_fetch_event (FetchPageContent link r) = True"
| "is_fetch_event ev = False"

text \<open>What the verifier loop may add to a trace: a selection from a list that is not empty, or a fetch.\<close>

fun loop_event :: "'c event \<Rightarrow> bool" where
  "loop_event (GetRelevantResult query base_url l r) = (l \<noteq> [])"
| "loop_event (FetchPageContent link r) = True"
| "loop_event ev = False"

text \<open>The queries that were searched, and the candidates the searches returned.\<close>

fun searched :: "'c event list \<Rightarrow> string list" where
  "searched [] = []"
| "searched (GetTopResult search r # evs) = search # searched evs"
| "searched (ev # evs) = searched evs"

fun found :: "'c event list \<Rightarrow> 'c list" where
  "found [] = []"
| "found (GetTopResult search (Inr (Some c)) # evs) = c # found evs"
| "found (ev # evs) = found evs"

subsection \<open>A shop, for running the handler\<close>

text \<open>
  A candidate is a string here and its serialisation puts it between double quotes.
  The world is the number of calls made so far. Five expanded queries give three
  distinct candidates: one search returns nothing and one returns a candidate again.
  The selector takes the first candidate of the list it is given, and only the policy
  page can be fetched.
\<close>

definition shop_env :: "(string, nat) env" where
  "shop_env =
     \<lparr> validators_url = (\<lambda>u. take 8 u = ''https://''),
       is_valid_query = (\<lambda>q. q \<noteq> []),
       urlparse = (\<lambda>u. let scheme = takeWhile (\<lambda>c. c \<noteq> CHR '':'') u
                       in Some (scheme, takeWhile (\<lambda>c. c \<noteq> CHR ''/'') (drop (length scheme + 3) u))),
       json_dumps = (\<lambda>c. CHR 0x22 # c @ [CHR 0x22]),
       json_loads = (\<lambda>s. butlast (tl s)),
       set_iter = (\<lambda>xs. xs),
       is_user_searching = (\<lambda>query url w. (Inr (Some True), Suc w)),
       gen_unfocused_response = (\<lambda>query url w. (Inr ''Glad you like it!'', Suc w)),
       get_search_queries = (\<lambda>query base_url w.
         (Inr [''returns'', ''refunds'', ''return policy'', ''policy'', ''help''], Suc w)),
       get_top_result = (\<lambda>search w.
         (Inr (map_of [(''returns'', ''https://shop.example/returns''),
                       (''return policy'', ''https://shop.example/returns''),
                       (''policy'', ''https://shop.example/policy''),
                       (''help'', ''https://shop.example/help'')] search), Suc w)),
       get_relevant_result = (\<lambda>query base_url l w.
         (Inr (case l of [] \<Rightarrow> None | c # cs \<Rightarrow> Some c), Suc w)),
       fetch_page_content = (\<lambda>link w.
         (Inr (if link = Some ''https://shop.example/policy''
               then Some ''Returns within 30 days.'' else None), Suc w)),
       gen_customer_response = (\<lambda>query base_url link content w.
         (Inr ''See the linked page.'', Suc w)) \<rparr>"

definition shop_data :: "string \<rightharpoonup> string" where
  "shop_data = [''url'' \<mapsto> ''https://shop.example/product/1'',
                ''query'' \<mapsto> ''what is your return policy?'']"

text \<open>The same shop when no page can be fetched and the selector always takes the last candidate.\<close>

definition unreachable_env :: "(string, nat) env" where
  "unreachable_env =
     shop_env \<lparr> get_relevant_result := (\<lambda>query base_url l w.
                   (Inr (if l = [] then None else Some (last l)), Suc w)),
                fetch_page_content := (\<lambda>link w. (Inr None, Suc w)) \<rparr>"

text \<open>The same shop when the classifier cannot decide.\<close>

definition undecided_env :: "(string, nat) env" where
  "undecided_env = shop_env \<lparr> is_user_searching := (\<lambda>query url w. (Inr None, Suc w)) \<rparr>"

text \<open>The same shop for a remark that is no search, with a reply and with an empty reply.\<close>

definition remark_env :: "(string, nat) env" where
  "remark_env = shop_env \<lparr> is_user_searching := (\<lambda>query url w. (Inr (Some False), Suc w)) \<rparr>"

definition silent_env :: "(string, nat) env" where
  "silent_env = remark_env \<lparr> gen_unfocused_response := (\<lambda>query url w. (Inr [], Suc w)) \<rparr>"

text \<open>The same shop when every search comes back empty.\<close>

definition barren_env :: "(string, nat) env" where
  "barren_env = shop_env \<lparr> get_top_result := (\<lambda>search w. (Inr None, Suc w)) \<rparr>"

text \<open>
  The same shop when the selector answers the string \<open>None\<close> and the fetcher has a page
  for it, and the same shop when the customer response cannot be generated.
\<close>

definition none_link_env :: "(string, nat) env" where
  "none_link_env =
     shop_env \<lparr> get_relevant_result := (\<lambda>query base_url l w. (Inr (Some ''None''), Suc w)),
                fetch_page_content := (\<lambda>link w. (Inr (Some ''Not found.''), Suc w)) \<rparr>"

definition broken_reply_env :: "(string, nat) env" where
  "broken_reply_env =
     shop_env \<lparr> get_relevant_result := (\<lambda>query base_url l w.
                   (Inr (Some ''https://shop.example/policy''), Suc w)),
                gen_customer_response := (\<lambda>query base_url link content w.
                   (Inl ''service unavailable'', Suc w)) \<rparr>"

definition remark_data :: "string \<rightharpoonup> string" where
  "remark_data = [''url'' \<mapsto> ''https://shop.example/product/1'',
                  ''query'' \<mapsto> ''nice shirt!'']"


section \<open>Runs of the loops and of the handler\<close>

text \<open>A call adds exactly one event to the trace.\<close>

lemma call_snd: "call ev f s = (r, s') \<Longrightarrow> snd s' = snd s @ [ev r]"
  by (auto simp: call_def split: prod.splits)

text \<open>
  One round of the verifier loop, and induction over its runs: a run stops at the end of
  the list, ends when a call raises or a fetch succeeds, and goes on after a failed fetch
  with the next index and the list without \<open>result\<close>.
\<close>

lemma verify_loop_stop:
  "\<not> i < length l \<Longrightarrow> verify_loop env q b i l vars s = (Inr (l, vars), s)"
  by (subst verify_loop.simps) simp

lemma verify_loop_iter:
  "i < length l \<Longrightarrow>
   verify_loop env q b i l vars s =
     (case call (GetRelevantResult q b l) (get_relevant_result env q b l) s of
        (Inl e, s1) \<Rightarrow> (Inl e, s1)
      | (Inr link, s1) \<Rightarrow>
          (case call (FetchPageContent link) (fetch_page_content env link) s1 of
             (Inl e, s2) \<Rightarrow> (Inl e, s2)
           | (Inr None, s2) \<Rightarrow>
               verify_loop env q b (i + 1) (remove1 (l ! i) l) (Some (link, None)) s2
           | (Inr (Some c), s2) \<Rightarrow> (Inr (l, Some (link, Some c)), s2)))"
  by (subst verify_loop.simps) (simp add: Let_def split: prod.splits sum.splits option.splits)

lemma verify_loop_run_induct [consumes 1, case_names stop select_raises fetch_raises success retry]:
  assumes run: "verify_loop env q b i l vars s = (res, s')"
    and stop: "\<And>i l vars s. \<not> i < length l \<Longrightarrow> P i l vars s (Inr (l, vars)) s"
    and select_raises: "\<And>i l vars s e s1. i < length l \<Longrightarrow>
          call (GetRelevantResult q b l) (get_relevant_result env q b l) s = (Inl e, s1) \<Longrightarrow>
          P i l vars s (Inl e) s1"
    and fetch_raises: "\<And>i l vars s link s1 e s2. i < length l \<Longrightarrow>
          call (GetRelevantResult q b l) (get_relevant_result env q b l) s = (Inr link, s1) \<Longrightarrow>
          call (FetchPageContent link) (fetch_page_content env link) s1 = (Inl e, s2) \<Longrightarrow>
          P i l vars s (Inl e) s2"
    and success: "\<And>i l vars s link s1 c s2. i < length l \<Longrightarrow>
          call (GetRelevantResult q b l) (get_relevant_result env q b l) s = (Inr link, s1) \<Longrightarrow>
          call (FetchPageContent link) (fetch_page_content env link) s1 = (Inr (Some c), s2) \<Longrightarrow>
          P i l vars s (Inr (l, Some (link, Some c))) s2"
    and retry: "\<And>i l vars s link s1 s2 res s'. i < length l \<Longrightarrow>
          call (GetRelevantResult q b l) (get_relevant_result env q b l) s = (Inr link, s1) \<Longrightarrow>
          call (FetchPageContent link) (fetch_page_content env link) s1 = (Inr None, s2) \<Longrightarrow>
          verify_loop env q b (i + 1) (remove1 (l ! i) l) (Some (link, None)) s2 = (res, s') \<Longrightarrow>
          P (i + 1) (remove1 (l ! i) l) (Some (link, None)) s2 res s' \<Longrightarrow>
          P i l vars s res s'"
  shows "P i l vars s res s'"
  using run
proof (induction "length l - i" arbitrary: i l vars s rule: less_induct)
  case (less i l vars s)
  note run = less.prems
  show ?case
  proof (cases "i < length l")
    case False
    from run False have "res = Inr (l, vars)" "s' = s"
      by (auto simp: verify_loop_stop)
    with stop[OF False, of vars s] show ?thesis by simp
  next
    case True
    obtain r1 s1 where c1:
      "call (GetRelevantResult q b l) (get_relevant_result env q b l) s = (r1, s1)"
      by (cases "call (GetRelevantResult q b l) (get_relevant_result env q b l) s")
    show ?thesis
    proof (cases r1)
      case (Inl e)
      with c1 have c1': "call (GetRelevantResult q b l) (get_relevant_result env q b l) s
                         = (Inl e, s1)"
        by simp
      from run True c1' have "res = Inl e" "s' = s1"
        by (auto simp: verify_loop_iter)
      with select_raises[OF True c1'] show ?thesis by simp
    next
      case (Inr link)
      with c1 have c1': "call (GetRelevantResult q b l) (get_relevant_result env q b l) s
                         = (Inr link, s1)"
        by simp
      obtain r2 s2 where c2:
        "call (FetchPageContent link) (fetch_page_content env link) s1 = (r2, s2)"
        by (cases "call (FetchPageContent link) (fetch_page_content env link) s1")
      show ?thesis
      proof (cases r2)
        case (Inl e)
        with c2 have c2': "call (FetchPageContent link) (fetch_page_content env link) s1
                           = (Inl e, s2)"
          by simp
        from run True c1' c2' have "res = Inl e" "s' = s2"
          by (auto simp: verify_loop_iter)
        with fetch_raises[OF True c1' c2'] show ?thesis by simp
      next
        case r2: (Inr content)
        show ?thesis
        proof (cases content)
          case (Some c)
          with c2 r2 have c2': "call (FetchPageContent link) (fetch_page_content env link) s1
                                = (Inr (Some c), s2)"
            by simp
          from run True c1' c2' have "res = Inr (l, Some (link, Some c))" "s' = s2"
            by (auto simp: verify_loop_iter)
          with success[OF True c1' c2'] show ?thesis by simp
        next
          case None
          with c2 r2 have c2': "call (FetchPageContent link) (fetch_page_content env link) s1
                                = (Inr None, s2)"
            by simp
          from run True c1' c2'
          have rec: "verify_loop env q b (i + 1) (remove1 (l ! i) l) (Some (link, None)) s2
                     = (res, s')"
            by (simp add: verify_loop_iter)
          have "length (remove1 (l ! i) l) - (i + 1) < length l - i"
            using True by (simp add: length_remove1)
          then have "P (i + 1) (remove1 (l ! i) l) (Some (link, None)) s2 res s'"
            using rec by (rule less.hyps)
          with retry[OF True c1' c2' rec] show ?thesis by simp
        qed
      qed
    qed
  qed
qed

text \<open>
  Every run of the handler is of one of thirteen kinds, one for each way through
  \<open>find_page\<close>: the four input errors, a classifier that raises, a request that is
  not a search, an expansion that raises, a search that raises, no candidate, a verifier
  loop that raises, the unbound variables, the 424 answer, and the customer response.
\<close>

lemma find_page_run_cases [consumes 1, case_names missing_url missing_query invalid_url
    invalid_query classify_raises not_searching expand_raises search_raises no_candidates
    verify_raises unbound exhausted answered]:
  assumes run: "find_page env data w = (resp, w', tr)"
  obtains
    (missing_url) "data ''url'' = None" "resp = (ErrorBody ''Missing url parameter.'', 401)"
      "tr = []"
  | (missing_query) url where "data ''url'' = Some url" "data ''query'' = None"
      "resp = (ErrorBody ''Missing query parameter.'', 402)" "tr = []"
  | (invalid_url) url query where "data ''url'' = Some url" "data ''query'' = Some query"
      "\<not> is_valid_url env url" "resp = (ErrorBody ''Invalid URL.'', 421)" "tr = []"
  | (invalid_query) url query where "data ''url'' = Some url" "data ''query'' = Some query"
      "is_valid_url env url" "\<not> is_valid_query env query"
      "resp = (ErrorBody ''Invalid query.'', 422)" "tr = []"
  | (classify_raises) url query e where "data ''url'' = Some url" "data ''query'' = Some query"
      "tr = [IsUserSearching query url (Inl e)]" "resp = (ErrorBody e, 500)"
  | (not_searching) url query ius r where "data ''url'' = Some url" "data ''query'' = Some query"
      "is_valid_url env url" "is_valid_query env query" "ius \<noteq> Some True"
      "tr = [IsUserSearching query url (Inr ius), GenUnfocusedResponse query url r]"
      "resp = (case r of Inl e \<Rightarrow> (ErrorBody e, 500) | Inr m \<Rightarrow> (LinkMessage None m, 200))"
  | (expand_raises) url query e where "data ''url'' = Some url" "data ''query'' = Some query"
      "tr = [IsUserSearching query url (Inr (Some True)),
             GetSearchQueries query (get_base_url env url) (Inl e)]"
      "resp = (ErrorBody e, 500)"
  | (search_raises) url query qs w2 e where "data ''url'' = Some url" "data ''query'' = Some query"
      "search_loop env qs ([], [])
         (w2, [IsUserSearching query url (Inr (Some True)),
               GetSearchQueries query (get_base_url env url) (Inr qs)]) = (Inl e, (w', tr))"
      "resp = (ErrorBody e, 500)"
  | (no_candidates) url query qs w2 results where
      "data ''url'' = Some url" "data ''query'' = Some query"
      "search_loop env qs ([], [])
         (w2, [IsUserSearching query url (Inr (Some True)),
               GetSearchQueries query (get_base_url env url) (Inr qs)])
       = (Inr (results, []), (w', tr))"
      "resp = (ErrorBody ''No relevant links found.'', 423)"
  | (verify_raises) url query qs w2 results l s3 e where
      "data ''url'' = Some url" "data ''query'' = Some query"
      "search_loop env qs ([], [])
         (w2, [IsUserSearching query url (Inr (Some True)),
               GetSearchQueries query (get_base_url env url) (Inr qs)])
       = (Inr (results, l), s3)" "l \<noteq> []"
      "verify_loop env query (get_base_url env url) 0 l None s3 = (Inl e, (w', tr))"
      "resp = (ErrorBody e, 500)"
  | (unbound) url query qs w2 results l s3 l' where
      "data ''url'' = Some url" "data ''query'' = Some query"
      "search_loop env qs ([], [])
         (w2, [IsUserSearching query url (Inr (Some True)),
               GetSearchQueries query (get_base_url env url) (Inr qs)])
       = (Inr (results, l), s3)" "l \<noteq> []"
      "verify_loop env query (get_base_url env url) 0 l None s3 = (Inr (l', None), (w', tr))"
      "resp = (ErrorBody ''UnboundLocalError'', 500)"
  | (exhausted) url query qs w2 results l s3 l' relevant_link page_content where
      "data ''url'' = Some url" "data ''query'' = Some query"
      "search_loop env qs ([], [])
         (w2, [IsUserSearching query url (Inr (Some True)),
               GetSearchQueries query (get_base_url env url) (Inr qs)])
       = (Inr (results, l), s3)" "l \<noteq> []"
      "verify_loop env query (get_base_url env url) 0 l None s3
       = (Inr (l', Some (relevant_link, page_content)), (w', tr))"
      "relevant_link = Some ''None'' \<or> relevant_link = None"
      "resp = (ErrorBody ''No relevant links found.'', 424)"
  | (answered) url query qs w2 results l s3 l' link page_content w4 tr4 r where
      "data ''url'' = Some url" "data ''query'' = Some query"
      "search_loop env qs ([], [])
         (w2, [IsUserSearching query url (Inr (Some True)),
               GetSearchQueries query (get_base_url env url) (Inr qs)])
       = (Inr (results, l), s3)" "l \<noteq> []"
      "verify_loop env query (get_base_url env url) 0 l None s3
       = (Inr (l', Some (Some link, page_content)), (w4, tr4))"
      "link \<noteq> ''None''"
      "tr = tr4 @ [GenCustomerResponse query (get_base_url env url) (Some link) page_content r]"
      "resp = (case r of Inl e \<Rightarrow> (ErrorBody e, 500)
               | Inr m \<Rightarrow> (LinkMessage (Some link) m, 200))"
proof -
  note defs = find_page_def find_page_body_def bindE_def ret_def call_def Let_def
  show ?thesis
  proof (cases "data ''url''")
    case None
    with run missing_url show ?thesis by (auto simp: defs)
  next
    case u: (Some url)
    show ?thesis
    proof (cases "data ''query''")
      case None
      with run u missing_query show ?thesis by (auto simp: defs)
    next
      case q: (Some query)
      show ?thesis
      proof (cases "is_valid_url env url \<and> is_valid_query env query")
        case False
        show ?thesis
        proof (cases "is_valid_url env url")
          case nv: False
          with run u q invalid_url[of url query] show ?thesis by (auto simp: defs)
        next
          case True
          with False have "\<not> is_valid_query env query" by simp
          with True run u q invalid_query[of url query] show ?thesis by (auto simp: defs)
        qed
      next
        case valid: True
        obtain r1 w1 where c1: "is_user_searching env query url w = (r1, w1)"
          by (cases "is_user_searching env query url w")
        show ?thesis
        proof (cases r1)
          case (Inl e)
          with run u q valid c1 classify_raises[of url query e] show ?thesis
            by (auto simp: defs)
        next
          case r1: (Inr ius)
          show ?thesis
          proof (cases "ius = Some True")
            case False
            obtain r w2 where c2: "gen_unfocused_response env query url w1 = (r, w2)"
              by (cases "gen_unfocused_response env query url w1")
            from run u q valid c1 r1 False c2 not_searching[of url query ius r]
            show ?thesis
              by (auto simp: defs split: sum.splits)
          next
            case searching: True
            let ?base = "get_base_url env url"
            obtain r2 w2 where c2: "get_search_queries env query ?base w1 = (r2, w2)"
              by (cases "get_search_queries env query ?base w1")
            show ?thesis
            proof (cases r2)
              case (Inl e)
              with run u q valid c1 r1 searching c2 expand_raises[of url query e]
              show ?thesis by (auto simp: defs)
            next
              case r2: (Inr qs)
              let ?tr0 = "[IsUserSearching query url (Inr (Some True)),
                           GetSearchQueries query ?base (Inr qs)]"
              obtain sres s3 where c3: "search_loop env qs ([], []) (w2, ?tr0) = (sres, s3)"
                by (cases "search_loop env qs ([], []) (w2, ?tr0)")
              note pre = u q valid c1 r1 searching c2 r2 c3
              show ?thesis
              proof (cases sres)
                case (Inl e)
                with run pre have "resp = (ErrorBody e, 500)" "s3 = (w', tr)"
                  by (auto simp: defs)
                with c3 Inl search_raises[of url query qs w2 e] u q show ?thesis by simp
              next
                case (Inr p)
                obtain results l where p: "p = (results, l)" by (cases p)
                show ?thesis
                proof (cases "l = []")
                  case True
                  with run pre Inr p
                  have "resp = (ErrorBody ''No relevant links found.'', 423)" "s3 = (w', tr)"
                    by (auto simp: defs)
                  with c3 Inr p True no_candidates[of url query qs w2 results] u q
                  show ?thesis by simp
                next
                  case ne: False
                  obtain vres s4 where c4:
                    "verify_loop env query ?base 0 l None s3 = (vres, s4)"
                    by (cases "verify_loop env query ?base 0 l None s3")
                  note pre4 = pre Inr p ne c4
                  show ?thesis
                  proof (cases vres)
                    case (Inl e)
                    with run pre4 have "resp = (ErrorBody e, 500)" "s4 = (w', tr)"
                      by (auto simp: defs)
                    with c3 c4 Inr Inl p ne u q
                      verify_raises[of url query qs w2 results l s3 e]
                    show ?thesis by simp
                  next
                    case vr: (Inr pv)
                    obtain l' vars where pv: "pv = (l', vars)" by (cases pv)
                    show ?thesis
                    proof (cases vars)
                      case None
                      with run pre4 vr pv
                      have "resp = (ErrorBody ''UnboundLocalError'', 500)" "s4 = (w', tr)"
                        by (auto simp: defs)
                      with c3 c4 Inr p ne vr pv None u q
                        unbound[of url query qs w2 results l s3 l']
                      show ?thesis by simp
                    next
                      case (Some lp)
                      obtain relevant_link page_content where lp:
                        "lp = (relevant_link, page_content)" by (cases lp)
                      show ?thesis
                      proof (cases "relevant_link = Some ''None'' \<or> relevant_link = None")
                        case True
                        with run pre4 vr pv Some lp
                        have "resp = (ErrorBody ''No relevant links found.'', 424)"
                          "s4 = (w', tr)"
                          by (auto simp: defs)
                        with c3 c4 Inr p ne vr pv Some lp True u q
                          exhausted[of url query qs w2 results l s3 l' relevant_link page_content]
                        show ?thesis by simp
                      next
                        case False
                        then obtain link where link: "relevant_link = Some link" "link \<noteq> ''None''"
                          by (cases relevant_link) auto
                        obtain r w5 where c5:
                          "gen_customer_response env query ?base (Some link) page_content (fst s4)
                           = (r, w5)"
                          by (cases "gen_customer_response env query ?base (Some link)
                                       page_content (fst s4)")
                        from run pre4 vr pv Some lp link c5
                        have "resp = (case r of Inl e \<Rightarrow> (ErrorBody e, 500)
                                      | Inr m \<Rightarrow> (LinkMessage (Some link) m, 200))"
                          "tr = snd s4 @ [GenCustomerResponse query ?base (Some link)
                                            page_content r]"
                          by (auto simp: defs split: sum.splits)
                        with c3 c4 Inr p ne vr pv Some lp link u q
                          answered[of url query qs w2 results l s3 l' link page_content
                                      "fst s4" "snd s4" r]
                        show ?thesis by simp
                      qed
                    qed
                  qed
                qed
              qed
            qed
          qed
        qed
      qed
    qed
  qed
qed


text \<open>
  The search loop adds search events only. When no search raises, it searches every
  query, in order, and its result is the fold of \<open>add_result\<close> over the candidates
  that the searches returned.
\<close>

lemma search_loop_run:
  "search_loop env qs acc s = (res, s') \<Longrightarrow>
   \<exists>new. snd s' = snd s @ new \<and> (\<forall>ev\<in>set new. is_search_event ev) \<and>
     ((\<forall>search e. GetTopResult search (Inl e) \<notin> set new) \<longrightarrow>
        searched new = qs \<and>
        res = Inr (foldl (\<lambda>acc c. add_result env c acc) acc (found new)))"
proof (induction qs arbitrary: acc s)
  case Nil
  then show ?case by auto
next
  case (Cons search rest)
  obtain r s1 where c: "call (GetTopResult search) (get_top_result env search) s = (r, s1)"
    by (cases "call (GetTopResult search) (get_top_result env search) s")
  note t1 = call_snd[OF c]
  show ?case
  proof (cases r)
    case (Inl e)
    with Cons.prems c have "s' = s1" by simp
    with t1 Inl show ?thesis by auto
  next
    case (Inr answer)
    show ?thesis
    proof (cases answer)
      case None
      with Cons.prems c Inr have "search_loop env rest acc s1 = (res, s')" by simp
      from Cons.IH[OF this] obtain new where new: "snd s' = snd s1 @ new"
        "\<forall>ev\<in>set new. is_search_event ev"
        "(\<forall>search e. GetTopResult search (Inl e) \<notin> set new) \<longrightarrow>
           searched new = rest \<and>
           res = Inr (foldl (\<lambda>acc c. add_result env c acc) acc (found new))"
        by blast
      have "snd s' = snd s @ (GetTopResult search r # new)" using new(1) t1 by simp
      moreover have "\<forall>ev\<in>set (GetTopResult search r # new). is_search_event ev"
        using new(2) by simp
      moreover have "(\<forall>q e. GetTopResult q (Inl e) \<notin> set (GetTopResult search r # new)) \<longrightarrow>
           searched (GetTopResult search r # new) = search # rest \<and>
           res = Inr (foldl (\<lambda>acc c. add_result env c acc) acc
                        (found (GetTopResult search r # new)))"
        using new(3) Inr None by simp
      ultimately show ?thesis by blast
    next
      case (Some c')
      with Cons.prems c Inr
      have "search_loop env rest (add_result env c' acc) s1 = (res, s')" by simp
      from Cons.IH[OF this] obtain new where new: "snd s' = snd s1 @ new"
        "\<forall>ev\<in>set new. is_search_event ev"
        "(\<forall>search e. GetTopResult search (Inl e) \<notin> set new) \<longrightarrow>
           searched new = rest \<and>
           res = Inr (foldl (\<lambda>acc c. add_result env c acc) (add_result env c' acc) (found new))"
        by blast
      have "snd s' = snd s @ (GetTopResult search r # new)" using new(1) t1 by simp
      moreover have "\<forall>ev\<in>set (GetTopResult search r # new). is_search_event ev"
        using new(2) by simp
      moreover have "(\<forall>q e. GetTopResult q (Inl e) \<notin> set (GetTopResult search r # new)) \<longrightarrow>
           searched (GetTopResult search r # new) = search # rest \<and>
           res = Inr (foldl (\<lambda>acc c. add_result env c acc) acc
                        (found (GetTopResult search r # new)))"
        using new(3) Inr Some by simp
      ultimately show ?thesis by blast
    qed
  qed
qed

lemma search_event_only:
  "is_search_event ev \<Longrightarrow> \<not> is_select_event ev \<and> \<not> is_fetch_event ev"
  by (cases ev) auto

lemma search_loop_events:
  "search_loop env qs acc s = (res, s') \<Longrightarrow>
   \<exists>new. snd s' = snd s @ new \<and> (\<forall>ev\<in>set new. is_search_event ev)"
  using search_loop_run by blast

lemma found_all_absent:
  "\<forall>search r. GetTopResult search r \<in> set evs \<longrightarrow> r = Inr None \<Longrightarrow> found evs = []"
  by (induction evs rule: found.induct) auto

lemma search_loop_all_absent:
  assumes run: "search_loop env qs acc s = (res, s')"
    and absent: "\<forall>search r. GetTopResult search r \<in> set (snd s') \<longrightarrow> r = Inr None"
  shows "res = Inr acc"
proof -
  from search_loop_run[OF run] obtain new where new: "snd s' = snd s @ new"
    "(\<forall>search e. GetTopResult search (Inl e) \<notin> set new) \<longrightarrow>
       res = Inr (foldl (\<lambda>acc c. add_result env c acc) acc (found new))"
    by blast
  from absent new(1) have a: "\<forall>search r. GetTopResult search r \<in> set new \<longrightarrow> r = Inr None"
    by simp
  then have "\<forall>search e. GetTopResult search (Inl e) \<notin> set new" by fastforce
  with new(2) found_all_absent[OF a] show ?thesis by simp
qed

text \<open>
  The verifier loop adds selections from lists that are not empty and fetches, nothing
  else. A fetch that succeeds ends it with that link and that content. Each failed fetch
  takes one element from the list and moves the index on, so a run from index \<open>i\<close>
  over a list of length \<open>n\<close> fetches at most \<open>(n + 1 - i) div 2\<close> times.
\<close>

lemma verify_loop_events:
  "verify_loop env q b i l vars s = (res, s') \<Longrightarrow>
   \<exists>new. snd s' = snd s @ new \<and> (\<forall>ev\<in>set new. loop_event ev)"
proof (induction rule: verify_loop_run_induct)
  case (retry i l vars s link s1 s2 res s')
  then show ?case by (fastforce dest!: call_snd)
qed (fastforce dest!: call_snd)+

lemma verify_loop_success:
  "verify_loop env q b i l vars s = (res, s') \<Longrightarrow>
   FetchPageContent link (Inr (Some c)) \<in> set (snd s') \<Longrightarrow>
   FetchPageContent link (Inr (Some c)) \<notin> set (snd s) \<Longrightarrow>
   \<exists>l'. res = Inr (l', Some (link, Some c))"
proof (induction rule: verify_loop_run_induct)
  case (success i l vars s link' s1 c' s2)
  then show ?case by (auto dest!: call_snd)
next
  case (retry i l vars s link' s1 s2 res s')
  from retry(2,3) have "snd s2 = snd s @ [GetRelevantResult q b l (Inr link'),
                                           FetchPageContent link' (Inr None)]"
    by (auto dest!: call_snd)
  with retry.prems have "FetchPageContent link (Inr (Some c)) \<notin> set (snd s2)" by simp
  with retry.IH retry.prems show ?case by simp
qed (auto dest!: call_snd)

lemma verify_loop_fetch_bound:
  "verify_loop env q b i l vars s = (res, s') \<Longrightarrow>
   2 * length (filter is_fetch_event (snd s'))
     \<le> 2 * length (filter is_fetch_event (snd s)) + (length l + 1 - i)"
proof (induction rule: verify_loop_run_induct)
  case (retry i l vars s link s1 s2 res s')
  from retry(2,3) have "snd s2 = snd s @ [GetRelevantResult q b l (Inr link),
                                           FetchPageContent link (Inr None)]"
    by (auto dest!: call_snd)
  then have "length (filter is_fetch_event (snd s2)) = length (filter is_fetch_event (snd s)) + 1"
    by simp
  moreover have "length (remove1 (l ! i) l) + 1 - (i + 1) + 2 = length l + 1 - i"
    using retry(1) by (simp add: length_remove1)
  ultimately show ?case using retry.IH by simp
qed (auto dest!: call_snd)

text \<open>
  The loop leaves \<open>relevant_link\<close> and \<open>page_content\<close> bound whenever its body has run,
  so the handler, which enters the loop with a list that is not empty, never reads
  them unbound.
\<close>

lemma verify_loop_binds:
  "verify_loop env q b i l vars s = (res, s') \<Longrightarrow> i < length l \<or> vars \<noteq> None \<Longrightarrow>
   res \<noteq> Inr (l', None)"
  by (induction rule: verify_loop_run_induct) auto

section \<open>Input checks\<close>



section \<open>Intent classification\<close>

text \<open>
  A run in which the classifier returned anything but \<open>True\<close> makes exactly one more
  call, for the unfocused response, and answers with what that call gives.
\<close>

lemma unfocused_run:
  fixes env :: "('c, 'w) env"
  assumes run: "find_page env data w = (resp, w', tr)"
    and classified: "IsUserSearching query url (Inr ius) \<in> set tr"
    and no: "ius \<noteq> Some True"
  shows "\<exists>r. tr = [IsUserSearching query url (Inr ius), GenUnfocusedResponse query url r] \<and>
             resp = (case r of Inl e \<Rightarrow> (ErrorBody e, 500)
                     | Inr message \<Rightarrow> (LinkMessage None message, 200))"
proof -
  let ?classified = "IsUserSearching query url (Inr ius) :: 'c event"
  have searches: "?classified \<notin> set (snd s3)"
    if "search_loop env qs acc
          (w2, [IsUserSearching q u (Inr (Some True)), GetSearchQueries q b (Inr qs)])
        = (sres, s3)"
    for qs acc w2 q u b sres s3
    using search_loop_events[OF that] no by fastforce
  have loop: "?classified \<notin> set (snd s4)"
    if "search_loop env qs acc
          (w2, [IsUserSearching q u (Inr (Some True)), GetSearchQueries q b (Inr qs)])
        = (sres, s3)"
      and "verify_loop env q' b' i l vars s3 = (vres, s4)"
    for qs acc w2 q u b sres s3 q' b' i l vars vres s4
    using verify_loop_events[OF that(2)] searches[OF that(1)] by fastforce
  from run show ?thesis
  proof (cases rule: find_page_run_cases)
    case (not_searching url' query' ius' r)
    with classified show ?thesis by auto
  next
    case (search_raises url' query' qs w2 e)
    with searches[OF search_raises(3)] classified show ?thesis by simp
  next
    case (no_candidates url' query' qs w2 results)
    with searches[OF no_candidates(3)] classified show ?thesis by simp
  next
    case (verify_raises url' query' qs w2 results l s3 e)
    with loop[OF verify_raises(3) verify_raises(5)] classified show ?thesis by simp
  next
    case (unbound url' query' qs w2 results l s3 l')
    with loop[OF unbound(3) unbound(5)] classified show ?thesis by simp
  next
    case (exhausted url' query' qs w2 results l s3 l' relevant_link page_content)
    with loop[OF exhausted(3) exhausted(5)] classified show ?thesis by simp
  next
    case (answered url' query' qs w2 results l s3 l' link page_content w4 tr4 r)
    with loop[OF answered(3) answered(5)] classified show ?thesis by simp
  qed (use classified no in auto)
qed

text \<open>
  C4, amended. The property as stated: a valid request that the classifier answers
  \<open>False\<close> for is answered 200 with no link and a message that is not empty, and no
  search and no fetch is made. The code passes on the reply of the generation service
  without looking at it, so the message is that reply, empty or not. What holds: when
  the classifier answers \<open>False\<close> and the unfocused response is returned, the handler
  answers 200 with no link and with that response as the message, and these two calls
  are the only ones, so nothing is searched and nothing is fetched.
\<close>

theorem not_searching_is_200_without_link:
  fixes env :: "('c, 'w) env"
  assumes run: "find_page env data w = (resp, w', tr)"
    and classified: "IsUserSearching query url (Inr (Some False)) \<in> set tr"
    and replied: "GenUnfocusedResponse query url (Inr message) \<in> set tr"
  shows "resp = (LinkMessage None message, 200) \<and>
         tr = [IsUserSearching query url (Inr (Some False)),
               GenUnfocusedResponse query url (Inr message)] \<and>
         (\<forall>ev\<in>set tr. \<not> is_search_event ev \<and> \<not> is_fetch_event ev)"
proof -
  from unfocused_run[OF run classified] obtain r where
    r: "tr = [IsUserSearching query url (Inr (Some False)), GenUnfocusedResponse query url r]"
      "resp = (case r of Inl e \<Rightarrow> (ErrorBody e, 500)
               | Inr message \<Rightarrow> (LinkMessage None message, 200))"
    by auto
  from replied r(1) have "r = Inr message" by simp
  with r show ?thesis by simp
qed

theorem not_searching_is_200_without_link_witness:
  "find_page remark_env remark_data 0
   = ((LinkMessage None ''Glad you like it!'', 200), 2,
      [IsUserSearching ''nice shirt!'' ''https://shop.example/product/1'' (Inr (Some False)),
       GenUnfocusedResponse ''nice shirt!'' ''https://shop.example/product/1''
         (Inr ''Glad you like it!'')])"
proof -
  define run where "run = find_page remark_env remark_data 0"
  have eq: "find_page remark_env remark_data 0 = (fst run, fst (snd run), snd (snd run))"
    by (simp add: run_def)
  have classified: "IsUserSearching ''nice shirt!'' ''https://shop.example/product/1''
                      (Inr (Some False)) \<in> set (snd (snd run))"
    unfolding run_def by code_simp
  have replied: "GenUnfocusedResponse ''nice shirt!'' ''https://shop.example/product/1''
                   (Inr ''Glad you like it!'') \<in> set (snd (snd run))"
    unfolding run_def by code_simp
  have world: "fst (snd run) = 2"
    unfolding run_def by code_simp
  from not_searching_is_200_without_link[OF eq classified replied] world
  have "run = ((LinkMessage None ''Glad you like it!'', 200), 2,
      [IsUserSearching ''nice shirt!'' ''https://shop.example/product/1'' (Inr (Some False)),
       GenUnfocusedResponse ''nice shirt!'' ''https://shop.example/product/1''
         (Inr ''Glad you like it!'')])"
    by (metis prod.collapse)
  then show ?thesis unfolding run_def .
qed

text \<open>
  C4 as stated fails where the generation service returns the empty string for a request
  that is no search: the answer is 200 with an empty message.
\<close>

theorem not_searching_empty_message:
  "find_page silent_env remark_data 0
   = ((LinkMessage None [], 200), 2,
      [IsUserSearching ''nice shirt!'' ''https://shop.example/product/1'' (Inr (Some False)),
       GenUnfocusedResponse ''nice shirt!'' ''https://shop.example/product/1'' (Inr [])])"
  by code_simp

text \<open>
  C3. The property: when the classifier cannot decide and answers \<open>None\<close>, the handler
  answers with the generic 500, never with 200 and never as for a request that is no
  search. The code has the test \<open>is_user_searching is None\<close> that answers 500, but it
  tests \<open>not is_user_searching\<close> first, which is true of \<open>None\<close> as it is of
  \<open>False\<close>, so the second test is never reached: the answer is the 200 of a request
  that is no search.
\<close>

theorem undecided_is_answered_200:
  "find_page undecided_env shop_data 0
   = ((LinkMessage None ''Glad you like it!'', 200), 2,
      [IsUserSearching ''what is your return policy?'' ''https://shop.example/product/1''
         (Inr None),
       GenUnfocusedResponse ''what is your return policy?'' ''https://shop.example/product/1''
         (Inr ''Glad you like it!'')])"
  by code_simp

text \<open>
  This is so in every run: after the answer \<open>None\<close> the handler asks for the unfocused
  response and answers 200 with it, and it answers 500 only if that call raises.
\<close>

lemma undecided_runs_as_not_searching:
  fixes env :: "('c, 'w) env"
  assumes "find_page env data w = (resp, w', tr)"
    and "IsUserSearching query url (Inr None) \<in> set tr"
  shows "\<exists>r. tr = [IsUserSearching query url (Inr None), GenUnfocusedResponse query url r] \<and>
             resp = (case r of Inl e \<Rightarrow> (ErrorBody e, 500)
                     | Inr message \<Rightarrow> (LinkMessage None message, 200))"
  using unfocused_run[OF assms] by simp

section \<open>Searching and deduplicating\<close>

text \<open>
  C7. When the request is classified as a search and the expansion returns no query at
  all, or every search returns \<open>None\<close>, the handler answers 423 and the verifier loop
  body never runs: the trace has no selection and no fetch.
\<close>

theorem no_candidates_is_423:
  fixes env :: "('c, 'w) env"
  assumes run: "find_page env data w = (resp, w', tr)"
    and searching: "IsUserSearching query url (Inr (Some True)) \<in> set tr"
    and expanded: "GetSearchQueries query base_url (Inr search_queries) \<in> set tr"
    and absent: "search_queries = [] \<or>
                 (\<forall>search r. GetTopResult search r \<in> set tr \<longrightarrow> r = Inr None)"
  shows "resp = (ErrorBody ''No relevant links found.'', 423) \<and>
         (\<forall>ev\<in>set tr. \<not> is_select_event ev \<and> \<not> is_fetch_event ev)"
proof -
  let ?expanded = "GetSearchQueries query base_url (Inr search_queries) :: 'c event"
  have not_loop: "?expanded \<notin> set new" if "\<forall>ev\<in>set new. loop_event ev" for new
    using that by fastforce
  have key: "sres = Inr ([], [])"
    if loop: "search_loop env qs ([], [])
          (w2, [IsUserSearching q u (Inr (Some True)), GetSearchQueries q b (Inr qs)])
        = (sres, s3)"
      and tr: "tr = snd s3 @ rest"
      and rest: "?expanded \<notin> set rest"
    for qs w2 q u b sres s3 rest
  proof -
    from search_loop_events[OF loop] obtain new where
      new: "snd s3 = [IsUserSearching q u (Inr (Some True)), GetSearchQueries q b (Inr qs)] @ new"
        "\<forall>ev\<in>set new. is_search_event ev"
      by auto
    have "?expanded \<notin> set new"
      using new(2) by fastforce
    with rest have qs: "qs = search_queries"
      using expanded tr new(1) by auto
    show ?thesis
    proof (cases "search_queries = []")
      case True
      with loop qs show ?thesis by simp
    next
      case False
      with absent tr
      have "\<forall>search r. GetTopResult search r \<in> set (snd s3) \<longrightarrow> r = Inr None"
        by simp
      with search_loop_all_absent[OF loop] show ?thesis by simp
    qed
  qed
  from run show ?thesis
  proof (cases rule: find_page_run_cases)
    case (search_raises url' query' qs w2 e)
    from key[OF search_raises(3), of "[]"] show ?thesis by simp
  next
    case (no_candidates url' query' qs w2 results)
    from search_loop_events[OF no_candidates(3)] obtain new where
      "tr = [IsUserSearching query' url' (Inr (Some True)),
            GetSearchQueries query' (get_base_url env url') (Inr qs)] @ new"
      "\<forall>ev\<in>set new. is_search_event ev"
      by auto
    then have "\<forall>ev\<in>set tr. \<not> is_select_event ev \<and> \<not> is_fetch_event ev"
      by (auto dest: search_event_only)
    with no_candidates(4) show ?thesis by simp
  next
    case (verify_raises url' query' qs w2 results l s3 e)
    from verify_loop_events[OF verify_raises(5)] obtain new where
      new: "tr = snd s3 @ new" "\<forall>ev\<in>set new. loop_event ev" by auto
    from key[OF verify_raises(3) new(1) not_loop[OF new(2)]] verify_raises(4)
    show ?thesis by simp
  next
    case (unbound url' query' qs w2 results l s3 l')
    from verify_loop_events[OF unbound(5)] obtain new where
      new: "tr = snd s3 @ new" "\<forall>ev\<in>set new. loop_event ev" by auto
    from key[OF unbound(3) new(1) not_loop[OF new(2)]] unbound(4)
    show ?thesis by simp
  next
    case (exhausted url' query' qs w2 results l s3 l' relevant_link page_content)
    from verify_loop_events[OF exhausted(5)] obtain new where
      new: "tr = snd s3 @ new" "\<forall>ev\<in>set new. loop_event ev" by auto
    from key[OF exhausted(3) new(1) not_loop[OF new(2)]] exhausted(4)
    show ?thesis by simp
  next
    case (answered url' query' qs w2 results l s3 l' link page_content w4 tr4 r)
    from verify_loop_events[OF answered(5)] obtain new where
      new: "tr4 = snd s3 @ new" "\<forall>ev\<in>set new. loop_event ev" by auto
    let ?rest = "new @ [GenCustomerResponse query' (get_base_url env url') (Some link)
                          page_content r]"
    have "tr = snd s3 @ ?rest" using answered(7) new(1) by simp
    moreover have "?expanded \<notin> set ?rest" using not_loop[OF new(2)] by simp
    ultimately show ?thesis using key[OF answered(3)] answered(4) by simp
  qed (use searching expanded in auto)
qed

theorem no_candidates_is_423_witness:
  "find_page barren_env shop_data 0
   = ((ErrorBody ''No relevant links found.'', 423), 7,
      [IsUserSearching ''what is your return policy?'' ''https://shop.example/product/1''
         (Inr (Some True)),
       GetSearchQueries ''what is your return policy?'' (Some ''https://shop.example'')
         (Inr [''returns'', ''refunds'', ''return policy'', ''policy'', ''help'']),
       GetTopResult ''returns'' (Inr None), GetTopResult ''refunds'' (Inr None),
       GetTopResult ''return policy'' (Inr None),
       GetTopResult ''policy'' (Inr None), GetTopResult ''help'' (Inr None)])"
proof -
  define run where "run = find_page barren_env shop_data 0"
  have eq: "find_page barren_env shop_data 0 = (fst run, fst (snd run), snd (snd run))"
    by (simp add: run_def)
  have tr: "snd (snd run)
            = [IsUserSearching ''what is your return policy?''
                 ''https://shop.example/product/1'' (Inr (Some True)),
               GetSearchQueries ''what is your return policy?''
                 (Some ''https://shop.example'')
                 (Inr [''returns'', ''refunds'', ''return policy'', ''policy'', ''help'']),
               GetTopResult ''returns'' (Inr None), GetTopResult ''refunds'' (Inr None),
               GetTopResult ''return policy'' (Inr None),
               GetTopResult ''policy'' (Inr None), GetTopResult ''help'' (Inr None)]"
    unfolding run_def by code_simp
  have world: "fst (snd run) = 7"
    unfolding run_def by code_simp
  have searching: "IsUserSearching ''what is your return policy?''
      ''https://shop.example/product/1'' (Inr (Some True)) \<in> set (snd (snd run))"
    by (simp add: tr)
  have expanded: "GetSearchQueries ''what is your return policy?''
      (Some ''https://shop.example'')
      (Inr [''returns'', ''refunds'', ''return policy'', ''policy'', ''help''])
      \<in> set (snd (snd run))"
    by (simp add: tr)
  have absent: "[''returns'', ''refunds'', ''return policy'', ''policy'', ''help''] = [] \<or>
      (\<forall>search r. GetTopResult search r \<in> set (snd (snd run)) \<longrightarrow> r = Inr None)"
    by (auto simp: tr)
  from no_candidates_is_423[OF eq searching expanded absent]
  have "fst run = (ErrorBody ''No relevant links found.'', 423)" by simp
  with tr world show ?thesis unfolding run_def[symmetric] by (metis prod.collapse)
qed

text \<open>
  The set of serialisations after the deduplication step has run over the candidates
  \<open>cs\<close>, and the list it leaves.
\<close>

lemma fst_add_results:
  "set (fst (foldl (\<lambda>acc c. add_result env c acc) acc cs))
   = set (fst acc) \<union> json_dumps env ` set cs"
  by (induction cs arbitrary: acc) (auto simp: add_result_def set_add_def Let_def)

lemma snd_add_results:
  "cs \<noteq> [] \<Longrightarrow>
   snd (foldl (\<lambda>acc c. add_result env c acc) acc cs)
   = map (json_loads env)
       (set_iter env (fst (foldl (\<lambda>acc c. add_result env c acc) acc cs)))"
  by (cases cs rule: rev_cases) (simp_all add: add_result_def Let_def)

lemma set_dedup:
  assumes "\<forall>xs. set (set_iter env xs) = set xs"
  shows "set (dedup env cs) = json_loads env ` json_dumps env ` set cs"
proof (cases "cs = []")
  case True
  then show ?thesis by (simp add: dedup_def)
next
  case False
  from snd_add_results[OF False, of env "([], [])"] assms
  have "set (dedup env cs)
        = json_loads env ` set (fst (foldl (\<lambda>acc c. add_result env c acc) ([], []) cs))"
    by (simp add: dedup_def)
  then show ?thesis by (simp add: fst_add_results)
qed

text \<open>
  With the accumulator the handler starts from, the list the search loop ends with is
  the deduplication of the candidates that the searches returned.
\<close>

lemma search_loop_dedup:
  fixes env :: "('c, 'w) env"
  assumes "search_loop env qs ([], []) s = (res, s')"
    and "\<forall>search e. GetTopResult search (Inl e) \<notin> set (snd s')"
  shows "\<exists>new results. snd s' = snd s @ new \<and> res = Inr (results, dedup env (found new))"
proof -
  from search_loop_run[OF assms(1)] obtain new where
    new: "snd s' = snd s @ new"
      "(\<forall>search e. GetTopResult search (Inl e) \<notin> set new) \<longrightarrow>
         res = Inr (foldl (\<lambda>acc c. add_result env c acc) ([], []) (found new))"
    by blast
  from assms(2) new(1) have "\<forall>search e. GetTopResult search (Inl e) \<notin> set new" by simp
  with new(2) have "res = Inr (fst (foldl (\<lambda>acc c. add_result env c acc) ([], []) (found new)),
                               dedup env (found new))"
    by (simp add: dedup_def)
  with new(1) show ?thesis by blast
qed

text \<open>
  C8. A search that returns \<open>None\<close> does not stop the search loop. When no search
  raises, every expanded query is searched, in order, and the loop ends with exactly the
  candidates that the other searches returned: the set \<open>results\<close> holds the
  serialisations of these candidates and nothing else, and \<open>unique_results_list\<close>
  holds what is read back from them. A query whose search returned \<open>None\<close> adds
  nothing to either.
\<close>

theorem absent_result_is_skipped:
  fixes env :: "('c, 'w) env"
  assumes run: "search_loop env search_queries ([], []) (w, []) = (res, w', tr)"
    and returned: "\<forall>search e. GetTopResult search (Inl e) \<notin> set tr"
    and iter: "\<forall>xs. set (set_iter env xs) = set xs"
  shows "searched tr = search_queries \<and>
         length tr = length search_queries \<and>
         found tr = [c. GetTopResult search (Inr (Some c)) \<leftarrow> tr] \<and>
         (\<exists>results unique_results_list.
            res = Inr (results, unique_results_list) \<and>
            set results = json_dumps env ` set (found tr) \<and>
            unique_results_list = dedup env (found tr) \<and>
            set unique_results_list = json_loads env ` json_dumps env ` set (found tr))"
proof -
  from search_loop_run[OF run] returned
  have q: "searched tr = search_queries"
    and r: "res = Inr (foldl (\<lambda>acc c. add_result env c acc) ([], []) (found tr))"
    and s: "\<forall>ev\<in>set tr. is_search_event ev"
    by auto
  have "length (searched evs) = length evs"
    if "\<forall>ev\<in>set evs. is_search_event ev" for evs :: "'c event list"
    using that by (induction evs rule: searched.induct) auto
  from this[OF s] q have len: "length tr = length search_queries" by simp
  have fnd: "found evs = [c. GetTopResult search (Inr (Some c)) \<leftarrow> evs]"
    for evs :: "'c event list"
    by (induction evs rule: found.induct) auto
  let ?end = "foldl (\<lambda>acc c. add_result env c acc) ([], []) (found tr)"
  have "res = Inr (fst ?end, snd ?end)" using r by simp
  moreover have "set (fst ?end) = json_dumps env ` set (found tr)"
    by (simp add: fst_add_results)
  moreover have "snd ?end = dedup env (found tr)"
    by (simp add: dedup_def)
  moreover have "set (snd ?end) = json_loads env ` json_dumps env ` set (found tr)"
    using set_dedup[OF iter, of "found tr"] by (simp add: dedup_def)
  ultimately show ?thesis using q len fnd by blast
qed

theorem absent_result_is_skipped_witness:
  "GetTopResult ''refunds'' (Inr None)
     \<in> set (snd (snd (search_loop shop_env [''returns'', ''refunds'', ''policy''] ([], []) (0, [])))) \<and>
   (\<exists>results unique_results_list.
      fst (search_loop shop_env [''returns'', ''refunds'', ''policy''] ([], []) (0, []))
        = Inr (results, unique_results_list) \<and>
      set unique_results_list
        = {''https://shop.example/returns'', ''https://shop.example/policy''})"
proof -
  define run where
    "run = search_loop shop_env [''returns'', ''refunds'', ''policy''] ([], []) (0, [])"
  have tr: "snd (snd run)
            = [GetTopResult ''returns'' (Inr (Some ''https://shop.example/returns'')),
               GetTopResult ''refunds'' (Inr None),
               GetTopResult ''policy'' (Inr (Some ''https://shop.example/policy''))]"
    unfolding run_def by code_simp
  have eq: "search_loop shop_env [''returns'', ''refunds'', ''policy''] ([], []) (0, [])
            = (fst run, fst (snd run), snd (snd run))"
    by (simp add: run_def)
  have returned: "\<forall>search e. GetTopResult search (Inl e) \<notin> set (snd (snd run))"
    by (simp add: tr)
  have iter: "\<forall>xs. set (set_iter shop_env xs) = set xs"
    by (simp add: shop_env_def)
  from absent_result_is_skipped[OF eq returned iter] obtain results unique_results_list where
    res: "fst run = Inr (results, unique_results_list)"
      "set unique_results_list
       = json_loads shop_env ` json_dumps shop_env ` set (found (snd (snd run)))"
    by blast
  have "json_loads shop_env ` json_dumps shop_env ` set (found (snd (snd run)))
        = {''https://shop.example/returns'', ''https://shop.example/policy''}"
    by (simp add: tr shop_env_def)
  with res(2) have "set unique_results_list
        = {''https://shop.example/returns'', ''https://shop.example/policy''}"
    by (rule trans)
  with res(1) have ex: "\<exists>results unique_results_list.
      fst run = Inr (results, unique_results_list) \<and>
      set unique_results_list
        = {''https://shop.example/returns'', ''https://shop.example/policy''}"
    by (intro exI conjI)
  have mem: "GetTopResult ''refunds'' (Inr None) \<in> set (snd (snd run))"
    by (simp add: tr)
  from mem ex show ?thesis unfolding run_def by (rule conjI)
qed

text \<open>
  C6. The deduplication is idempotent and does not depend on the order of the
  candidates, as far as the set of candidates it leaves is concerned. Two facts about
  the libraries are used: iterating over a Python set visits exactly its elements, and
  serialising what was read back from a serialisation gives that serialisation again.
\<close>

theorem dedup_idempotent_and_order_independent:
  fixes env :: "('c, 'w) env"
  assumes iter: "\<forall>xs. set (set_iter env xs) = set xs"
    and roundtrip: "\<forall>c. json_dumps env (json_loads env (json_dumps env c)) = json_dumps env c"
  shows "set (dedup env (dedup env X)) = set (dedup env X) \<and>
         (mset Y = mset X \<longrightarrow> set (dedup env Y) = set (dedup env X))"
proof
  have "json_dumps env ` json_loads env ` json_dumps env ` set X = json_dumps env ` set X"
    using roundtrip by (auto simp: image_iff)
  then have "json_loads env ` json_dumps env ` json_loads env ` json_dumps env ` set X
             = json_loads env ` json_dumps env ` set X"
    by simp
  then show "set (dedup env (dedup env X)) = set (dedup env X)"
    by (simp add: set_dedup[OF iter])
next
  show "mset Y = mset X \<longrightarrow> set (dedup env Y) = set (dedup env X)"
  proof
    assume "mset Y = mset X"
    then have "set Y = set X" by (rule mset_eq_setD)
    then show "set (dedup env Y) = set (dedup env X)"
      by (simp add: set_dedup[OF iter])
  qed
qed

theorem dedup_idempotent_and_order_independent_witness:
  "dedup shop_env [''a'', ''b'', ''a''] = [''a'', ''b''] \<and>
   set (dedup shop_env (dedup shop_env [''a'', ''b'', ''a'']))
     = set (dedup shop_env [''a'', ''b'', ''a'']) \<and>
   mset [''b'', ''a'', ''a''] = mset [''a'', ''b'', ''a''] \<and>
   set (dedup shop_env [''b'', ''a'', ''a'']) = set (dedup shop_env [''a'', ''b'', ''a''])"
proof -
  have iter: "\<forall>xs. set (set_iter shop_env xs) = set xs"
    by (simp add: shop_env_def)
  have roundtrip: "\<forall>c. json_dumps shop_env (json_loads shop_env (json_dumps shop_env c))
                       = json_dumps shop_env c"
    by (simp add: shop_env_def)
  have perm: "mset [''b'', ''a'', ''a''] = mset [''a'', ''b'', ''a'']"
    by simp
  have val: "dedup shop_env [''a'', ''b'', ''a''] = [''a'', ''b'']"
    by code_simp
  from dedup_idempotent_and_order_independent[OF iter roundtrip,
      of "[''a'', ''b'', ''a'']" "[''b'', ''a'', ''a'']"] perm val
  show ?thesis by blast
qed

section \<open>The verifier loop\<close>

text \<open>
  C10. Every call of \<open>get_relevant_result\<close> that the handler makes is given a list of
  candidates that is not empty: an empty list is answered 423 before the loop, and the
  loop stops before it selects from a list it has emptied.
\<close>

theorem selector_list_never_empty:
  assumes "GetRelevantResult query base_url l r \<in> set (snd (snd (find_page env data w)))"
  shows "l \<noteq> []"
proof -
  obtain resp w' tr where run: "find_page env data w = (resp, w', tr)"
    by (cases "find_page env data w") auto
  with assms have mem: "GetRelevantResult query base_url l r \<in> set tr" by simp
  have searches: "l \<noteq> []"
    if "search_loop env qs acc (w2, [IsUserSearching q u a, GetSearchQueries q b (Inr qs)])
        = (sres, s3)"
      and "GetRelevantResult query base_url l r \<in> set (snd s3)"
    for qs acc w2 q u a b sres s3
    using search_loop_events[OF that(1)] that(2) by fastforce
  have loop: "l \<noteq> []"
    if "search_loop env qs acc (w2, [IsUserSearching q u a, GetSearchQueries q b (Inr qs)])
        = (sres, s3)"
      and "verify_loop env q' b' i l0 vars s3 = (vres, s4)"
      and "GetRelevantResult query base_url l r \<in> set (snd s4)"
    for qs acc w2 q u a b sres s3 q' b' i l0 vars vres s4
  proof -
    from verify_loop_events[OF that(2)] obtain new where
      new: "snd s4 = snd s3 @ new" "\<forall>ev\<in>set new. loop_event ev" by blast
    show ?thesis
    proof (cases "GetRelevantResult query base_url l r \<in> set new")
      case True
      with new(2) have "loop_event (GetRelevantResult query base_url l r)" by blast
      then show ?thesis by simp
    next
      case False
      with that(3) new(1) have "GetRelevantResult query base_url l r \<in> set (snd s3)" by simp
      with searches[OF that(1)] show ?thesis .
    qed
  qed
  from run mem show ?thesis
  proof (cases rule: find_page_run_cases)
    case (search_raises url query qs w2 e)
    with searches[OF search_raises(3)] mem show ?thesis by simp
  next
    case (no_candidates url query qs w2 results)
    with searches[OF no_candidates(3)] mem show ?thesis by simp
  next
    case (verify_raises url query qs w2 results l0 s3 e)
    with loop[OF verify_raises(3) verify_raises(5)] mem show ?thesis by simp
  next
    case (unbound url query qs w2 results l0 s3 l')
    with loop[OF unbound(3) unbound(5)] mem show ?thesis by simp
  next
    case (exhausted url query qs w2 results l0 s3 l' relevant_link page_content)
    with loop[OF exhausted(3) exhausted(5)] mem show ?thesis by simp
  next
    case (answered url query qs w2 results l0 s3 l' link page_content w4 tr4 r')
    with loop[OF answered(3) answered(5)] mem show ?thesis by simp
  qed auto
qed

theorem selector_list_never_empty_witness:
  "GetRelevantResult ''what is your return policy?'' (Some ''https://shop.example'')
     [''https://shop.example/policy'', ''https://shop.example/help'']
     (Inr (Some ''https://shop.example/policy''))
     \<in> set (snd (snd (find_page shop_env shop_data 0))) \<and>
   [''https://shop.example/policy'', ''https://shop.example/help''] \<noteq> []"
proof -
  have mem: "GetRelevantResult ''what is your return policy?'' (Some ''https://shop.example'')
     [''https://shop.example/policy'', ''https://shop.example/help'']
     (Inr (Some ''https://shop.example/policy''))
     \<in> set (snd (snd (find_page shop_env shop_data 0)))"
    by code_simp
  from mem selector_list_never_empty[OF mem] show ?thesis by simp
qed

text \<open>
  C5, amended. The property as stated: in every run in which the fetch of a selected
  candidate succeeds, the handler answers 200 with the link of that candidate and a
  message made from the content that was fetched, never with a link whose content was not
  fetched. The test after the loop takes the answers \<open>None\<close> and the string \<open>None\<close>
  of the selector for no selection, and an exception of the customer response is
  answered 500 as any other. What holds: when the fetch of a selected link succeeds, the
  link being neither of the two, the loop stops there, the last call of the run asks for
  the customer response with exactly that link and the content that was fetched, and
  the answer is 200 with that link and that response as the message when the call
  returns, 500 when it raises.
\<close>

theorem fetched_candidate_is_answered:
  fixes env :: "('c, 'w) env"
  assumes run: "find_page env data w = (resp, w', tr)"
    and fetched: "FetchPageContent (Some link) (Inr (Some content)) \<in> set tr"
    and usable: "link \<noteq> ''None''"
  shows "\<exists>url query r.
           data ''url'' = Some url \<and> data ''query'' = Some query \<and>
           last tr = GenCustomerResponse query (get_base_url env url) (Some link) (Some content) r \<and>
           resp = (case r of Inl e \<Rightarrow> (ErrorBody e, 500)
                   | Inr message \<Rightarrow> (LinkMessage (Some link) message, 200))"
proof -
  let ?ev = "FetchPageContent (Some link) (Inr (Some content)) :: 'c event"
  have searches: "?ev \<notin> set (snd s3)"
    if "search_loop env qs acc (w2, [IsUserSearching q u a, GetSearchQueries q b (Inr qs)])
        = (sres, s3)"
    for qs acc w2 q u a b sres s3
    using search_loop_events[OF that] by fastforce
  have loop: "\<exists>l'. vres = Inr (l', Some (Some link, Some content))"
    if "search_loop env qs acc (w2, [IsUserSearching q u a, GetSearchQueries q b (Inr qs)])
        = (sres, s3)"
      and "verify_loop env q' b' i l0 vars s3 = (vres, s4)"
      and "?ev \<in> set (snd s4)"
    for qs acc w2 q u a b sres s3 q' b' i l0 vars vres s4
    using verify_loop_success[OF that(2) that(3) searches[OF that(1)]] .
  from run fetched show ?thesis
  proof (cases rule: find_page_run_cases)
    case (search_raises url query qs w2 e)
    with searches[OF search_raises(3)] fetched show ?thesis by simp
  next
    case (no_candidates url query qs w2 results)
    with searches[OF no_candidates(3)] fetched show ?thesis by simp
  next
    case (verify_raises url query qs w2 results l0 s3 e)
    with loop[OF verify_raises(3) verify_raises(5)] fetched show ?thesis by simp
  next
    case (unbound url query qs w2 results l0 s3 l')
    with loop[OF unbound(3) unbound(5)] fetched show ?thesis by simp
  next
    case (exhausted url query qs w2 results l0 s3 l' relevant_link page_content)
    with loop[OF exhausted(3) exhausted(5)] fetched usable show ?thesis by auto
  next
    case (answered url query qs w2 results l0 s3 l' link' page_content w4 tr4 r)
    from answered(7) fetched have "?ev \<in> set (snd (w4, tr4))" by simp
    from loop[OF answered(3) answered(5) this]
    have "link' = link" "page_content = Some content" by simp_all
    with answered show ?thesis by (cases r) simp_all
  qed auto
qed

theorem fetched_candidate_is_answered_witness:
  "FetchPageContent (Some ''https://shop.example/policy'') (Inr (Some ''Returns within 30 days.''))
     \<in> set (snd (snd (find_page shop_env shop_data 0))) \<and>
   FetchPageContent (Some ''https://shop.example/returns'') (Inr None)
     \<in> set (snd (snd (find_page shop_env shop_data 0))) \<and>
   fst (find_page shop_env shop_data 0)
     = (LinkMessage (Some ''https://shop.example/policy'') ''See the linked page.'', 200)"
proof -
  let ?tr = "snd (snd (find_page shop_env shop_data 0))"
  have run: "find_page shop_env shop_data 0
             = (fst (find_page shop_env shop_data 0), fst (snd (find_page shop_env shop_data 0)), ?tr)"
    by simp
  have fetched: "FetchPageContent (Some ''https://shop.example/policy'')
                   (Inr (Some ''Returns within 30 days.'')) \<in> set ?tr"
    by code_simp
  have failed: "FetchPageContent (Some ''https://shop.example/returns'') (Inr None) \<in> set ?tr"
    by code_simp
  have lst: "last ?tr = GenCustomerResponse ''what is your return policy?''
               (Some ''https://shop.example'') (Some ''https://shop.example/policy'')
               (Some ''Returns within 30 days.'') (Inr ''See the linked page.'')"
    by code_simp
  from fetched_candidate_is_answered[OF run fetched] lst
  have "fst (find_page shop_env shop_data 0)
        = (LinkMessage (Some ''https://shop.example/policy'') ''See the linked page.'', 200)"
    by auto
  with fetched failed show ?thesis by simp
qed

text \<open>
  C5 as stated fails in two runs in which a fetch succeeds. In the first the selector
  answers the string \<open>None\<close>, the fetch of it succeeds, and the test after the loop
  takes the string for no selection: the answer is 424. In the second the fetch of the
  policy page succeeds and the customer response raises: the answer is 500.
\<close>

theorem fetched_candidate_not_always_200:
  "FetchPageContent (Some ''None'') (Inr (Some ''Not found.''))
     \<in> set (snd (snd (find_page none_link_env shop_data 0))) \<and>
   fst (find_page none_link_env shop_data 0) = (ErrorBody ''No relevant links found.'', 424) \<and>
   FetchPageContent (Some ''https://shop.example/policy'') (Inr (Some ''Returns within 30 days.''))
     \<in> set (snd (snd (find_page broken_reply_env shop_data 0))) \<and>
   fst (find_page broken_reply_env shop_data 0) = (ErrorBody ''service unavailable'', 500)"
proof -
  have a: "FetchPageContent (Some ''None'') (Inr (Some ''Not found.''))
            \<in> set (snd (snd (find_page none_link_env shop_data 0)))"
    by code_simp
  have b: "fst (find_page none_link_env shop_data 0)
           = (ErrorBody ''No relevant links found.'', 424)"
    by code_simp
  have c: "FetchPageContent (Some ''https://shop.example/policy'')
             (Inr (Some ''Returns within 30 days.''))
            \<in> set (snd (snd (find_page broken_reply_env shop_data 0)))"
    by code_simp
  have d: "fst (find_page broken_reply_env shop_data 0)
           = (ErrorBody ''service unavailable'', 500)"
    by code_simp
  from a b c d show ?thesis by (intro conjI)
qed

section \<open>The verifier loop when every fetch fails\<close>

text \<open>
  C1. The property: when the list of candidates is not empty and every fetch fails, the
  handler answers 424 (no relevant links found), never 200 and never 423. The code has
  the 424 answer after the loop, but the test before it looks at \<open>relevant_link\<close> only.
  With three candidates, none of which can be fetched, the loop ends with
  \<open>relevant_link\<close> bound to the last link that was selected and \<open>page_content\<close>
  bound to \<open>None\<close>, and the handler asks for a customer response with no content and
  answers 200 with that link.
\<close>

theorem all_fetches_fail_is_answered_200:
  "fst (find_page unreachable_env shop_data 0)
     = (LinkMessage (Some ''https://shop.example/help'') ''See the linked page.'', 200) \<and>
   filter is_fetch_event (snd (snd (find_page unreachable_env shop_data 0)))
     = [FetchPageContent (Some ''https://shop.example/help'') (Inr None),
        FetchPageContent (Some ''https://shop.example/help'') (Inr None)] \<and>
   last (snd (snd (find_page unreachable_env shop_data 0)))
     = GenCustomerResponse ''what is your return policy?'' (Some ''https://shop.example'')
         (Some ''https://shop.example/help'') None (Inr ''See the linked page.'')"
  by code_simp

text \<open>
  C2. The property: over \<open>n\<close> candidates the loop ends after at most \<open>n\<close> fetches and
  fetches no candidate twice, because a candidate whose fetch failed is removed from the
  list. The code removes \<open>result\<close>, the element the iteration stands on, and not the
  candidate whose fetch failed. In the same run as above the candidate that was
  selected stays in the list, is selected again in the next round and is fetched a second
  time. The removal also shifts the list under the index of the iteration, so the second
  round stands on the third candidate and the loop ends after two rounds.
\<close>

theorem failed_candidate_is_fetched_again:
  "filter (\<lambda>ev. is_select_event ev \<or> is_fetch_event ev)
     (snd (snd (find_page unreachable_env shop_data 0)))
   = [GetRelevantResult ''what is your return policy?'' (Some ''https://shop.example'')
        [''https://shop.example/returns'', ''https://shop.example/policy'',
         ''https://shop.example/help'']
        (Inr (Some ''https://shop.example/help'')),
      FetchPageContent (Some ''https://shop.example/help'') (Inr None),
      GetRelevantResult ''what is your return policy?'' (Some ''https://shop.example'')
        [''https://shop.example/policy'', ''https://shop.example/help'']
        (Inr (Some ''https://shop.example/help'')),
      FetchPageContent (Some ''https://shop.example/help'') (Inr None)]"
  by code_simp

text \<open>
  The bound on the number of fetches does hold: a run of the loop over a list of \<open>n\<close>
  candidates fetches at most \<open>(n + 1) div 2\<close> times, hence at most \<open>n\<close> times.
\<close>

lemma verify_loop_fetches_at_most_length:
  assumes "verify_loop env query base_url 0 l None (w, tr) = (res, w', tr')"
  shows "length (filter is_fetch_event tr') \<le> length (filter is_fetch_event tr) + length l"
  using verify_loop_fetch_bound[OF assms] by simp


end
